theory Spec2Isabelle
  imports Main "HOL-Library.Word"
begin

unbundle bit_operations_syntax

section \<open>Data model of \<open>cmd/boots/dhcp.go\<close>\<close>

text \<open>
  Go's \<open>byte\<close> is an 8-bit word; \<open>net.IP\<close> and \<open>net.HardwareAddr\<close> are byte slices,
  modelled as lists (the \<open>nil\<close> slice is the empty list: the code only indexes and
  measures them). A Go \<open>string\<close> is a byte sequence, which is what \<open>string\<close> is here.
  Go's \<open>int\<close> is the 64-bit one of the platforms the server is built for; it is
  modelled by \<open>int\<close>, and \<open>IPRange_int64\<close> below shows that the only arithmetic done on
  it, in \<open>IPRange\<close>, stays inside 64 bits. The conversion \<open>uint(add)\<close> of \<open>IPAdd\<close>,
  where wrap-around does matter, is done on \<open>64 word\<close>.
\<close>

type_synonym byte = "8 word"
type_synonym IP = "byte list"
type_synonym HardwareAddr = "byte list"

text \<open>The run-time panics the code of this file can raise.\<close>

datatype panic = IndexOutOfRange | SliceBoundsOutOfRange | IntnInvalidArgument

record lease =
  nic :: string

record DHCPServer =
  start :: IP
  subnet :: IP
  gateway :: IP
  leaseRange :: int
  leases :: "int \<rightharpoonup> lease"

section \<open>Standard-library functions the code calls\<close>

text \<open>
  \<open>net.HardwareAddr.String\<close>: the empty address prints as the empty string, any other
  as its bytes in two lower-case hexadecimal digits each, separated by colons.
\<close>

definition hexDigit :: string where
  "hexDigit = ''0123456789abcdef''"

fun String_loop :: "nat \<Rightarrow> byte list \<Rightarrow> string" where
  "String_loop i [] = []"
| "String_loop i (b # bs) =
     (if 0 < i then [CHR '':''] else []) @
     [hexDigit ! unat (drop_bit 4 b), hexDigit ! unat (b AND 0xF)] @
     String_loop (Suc i) bs"

definition HardwareAddr_String :: "HardwareAddr \<Rightarrow> string" where
  "HardwareAddr_String a = (if length a = 0 then [] else String_loop 0 a)"

text \<open>
  \<open>net.IP.To4\<close>: a 4-byte address is returned as it is, a 16-byte address with the
  IPv4-in-IPv6 prefix gives its last four bytes, anything else gives \<open>nil\<close>.
\<close>

definition isZeros :: "byte list \<Rightarrow> bool" where
  "isZeros p = list_all (\<lambda>b. b = 0) p"

definition To4 :: "IP \<Rightarrow> IP" where
  "To4 ip =
     (if length ip = 4 then ip
      else if length ip = 16 \<and> isZeros (take 10 ip) \<and> ip ! 10 = 0xff \<and> ip ! 11 = 0xff
      then drop 12 ip
      else [])"

text \<open>\<open>net.IPv4\<close> builds the 16-byte form of the address \<open>a.b.c.d\<close>.\<close>

definition v4InV6Prefix :: "byte list" where
  "v4InV6Prefix = [0, 0, 0, 0, 0, 0, 0, 0, 0, 0, 0xff, 0xff]"

definition IPv4 :: "byte \<Rightarrow> byte \<Rightarrow> byte \<Rightarrow> byte \<Rightarrow> IP" where
  "IPv4 a b c d = v4InV6Prefix @ [a, b, c, d]"

text \<open>
  \<open>binary.BigEndian.Uint32\<close> reads four bytes, most significant first, and panics on a
  slice shorter than four bytes.
\<close>

definition Uint32 :: "byte list \<Rightarrow> panic + 32 word" where
  "Uint32 b =
     (if length b < 4 then Inl IndexOutOfRange
      else Inr (ucast (b ! 3) OR push_bit 8 (ucast (b ! 2)) OR
                push_bit 16 (ucast (b ! 1)) OR push_bit 24 (ucast (b ! 0))))"

text \<open>
  \<open>rand.Intn n\<close> panics when \<open>n \<le> 0\<close>; otherwise it reduces a draw of the generator
  modulo \<open>n\<close>. The draw \<open>raw\<close> is a parameter: every value of \<open>[0, n)\<close> is the result for
  some draw, and no other value is.
\<close>

definition Intn :: "nat \<Rightarrow> int \<Rightarrow> panic + int" where
  "Intn raw n = (if n \<le> 0 then Inl IntnInvalidArgument else Inr (int raw mod n))"

section \<open>Address arithmetic\<close>

text \<open>\<open>IPAdd\<close>: the four bytes of \<open>ip.To4()\<close> are indexed, which panics on \<open>nil\<close>.\<close>

definition IPAdd :: "IP \<Rightarrow> int \<Rightarrow> panic + IP" where
  "IPAdd ip add =
     (let inc = (word_of_int add :: 64 word);
          i = To4 ip
      in if length i < 4 then Inl IndexOutOfRange
         else
           let u = push_bit 24 (ucast (i ! 0)) + push_bit 16 (ucast (i ! 1)) +
                   push_bit 8 (ucast (i ! 2)) + ucast (i ! 3);
               v = u + inc;
               v3 = (ucast (v AND 0xFF) :: byte);
               v2 = (ucast (drop_bit 8 v AND 0xFF) :: byte);
               v1 = (ucast (drop_bit 16 v AND 0xFF) :: byte);
               v0 = (ucast (drop_bit 24 v AND 0xFF) :: byte)
           in Inr (IPv4 v0 v1 v2 v3))"

definition IPRange :: "IP \<Rightarrow> IP \<Rightarrow> panic + int" where
  "IPRange start' stop =
     (case Uint32 (To4 stop) of
        Inl e \<Rightarrow> Inl e
      | Inr hi \<Rightarrow>
          (case Uint32 (To4 start') of
             Inl e \<Rightarrow> Inl e
           | Inr lo \<Rightarrow> Inr (uint hi - uint lo + 1)))"

section \<open>The lease table\<close>

text \<open>
  The inner loop of \<open>freeLease\<close>, \<open>for i := v[0]; i < v[1]; i++\<close>: the first index of
  \<open>[i, hi)\<close> that is not a key of the map, if there is one.
\<close>

function scan :: "(int \<rightharpoonup> lease) \<Rightarrow> int \<Rightarrow> int \<Rightarrow> int option" where
  "scan m i hi = (if i < hi then (if m i = None then Some i else scan m (i + 1) hi) else None)"
  by pat_completeness auto
termination
  by (relation "measure (\<lambda>(m, i, hi). nat (hi - i))") auto

declare scan.simps [simp del]

text \<open>\<open>freeLease\<close>: the outer loop runs over the two intervals \<open>[b, leaseRange)\<close> and \<open>[0, b)\<close>.\<close>

definition freeLease :: "DHCPServer \<Rightarrow> nat \<Rightarrow> panic + int" where
  "freeLease s raw =
     (case Intn raw (leaseRange s) of
        Inl e \<Rightarrow> Inl e
      | Inr b \<Rightarrow>
          (case scan (leases s) b (leaseRange s) of
             Some i \<Rightarrow> Inr i
           | None \<Rightarrow>
               (case scan (leases s) 0 b of
                  Some i \<Rightarrow> Inr i
                | None \<Rightarrow> Inr (- 1))))"

definition addLease :: "DHCPServer \<Rightarrow> HardwareAddr \<Rightarrow> IP \<Rightarrow> panic + DHCPServer" where
  "addLease s mac reqIP =
     (case IPRange (start s) reqIP of
        Inl e \<Rightarrow> Inl e
      | Inr r \<Rightarrow>
          (let leaseNum = r - 1
           in if leaseNum \<ge> 0 \<and> leaseNum < leaseRange s
              then (case leases s leaseNum of
                      None \<Rightarrow>
                        Inr (s\<lparr>leases := (leases s)(leaseNum \<mapsto> \<lparr>nic = HardwareAddr_String mac\<rparr>)\<rparr>)
                    | Some l \<Rightarrow>
                        if nic l = HardwareAddr_String mac
                        then Inr (s\<lparr>leases := (leases s)(leaseNum \<mapsto> \<lparr>nic = HardwareAddr_String mac\<rparr>)\<rparr>)
                        else Inr s)
              else Inr s))"

text \<open>
  \<open>releaseLease\<close> ranges over the map, whose iteration order Go leaves unspecified: the
  order in which the keys are visited is the parameter \<open>order\<close>. The loop deletes the
  first visited entry of the client and breaks. The source reads the map of the global
  \<open>server\<close>, the one server there is and the receiver of every call.
\<close>

fun release_loop :: "(int \<rightharpoonup> lease) \<Rightarrow> string \<Rightarrow> int list \<Rightarrow> (int \<rightharpoonup> lease)" where
  "release_loop m c [] = m"
| "release_loop m c (i # is) =
     (case m i of
        None \<Rightarrow> release_loop m c is
      | Some v \<Rightarrow> if nic v = c then m(i := None) else release_loop m c is)"

definition releaseLease :: "DHCPServer \<Rightarrow> HardwareAddr \<Rightarrow> int list \<Rightarrow> DHCPServer" where
  "releaseLease s mac order = s\<lparr>leases := release_loop (leases s) (HardwareAddr_String mac) order\<rparr>"

section \<open>The option parser\<close>

text \<open>
  The argument is what \<open>req.GetOption(dhcp4.OptionRelayAgentInformation)\<close> returns:
  \<open>None\<close> when the option is absent, the bytes of its value otherwise. The result is
  the pair \<open>(circuitID, err)\<close>, with \<open>None\<close> for the \<open>nil\<close> error. Indexing a slice
  past its length and slicing \<open>[lo:hi]\<close> with \<open>hi < lo\<close> are run-time panics.
  \<open>string(bytes)\<close> keeps the bytes.
\<close>

type_synonym error = string

definition bytes_to_string :: "byte list \<Rightarrow> string" where
  "bytes_to_string bs = map (\<lambda>b. char_of (unat b)) bs"

definition getCircuitID :: "byte list option \<Rightarrow> panic + (string \<times> error option)" where
  "getCircuitID opt82 =
     (case opt82 of
        None \<Rightarrow> Inr ([], None)
      | Some eightytwo \<Rightarrow>
          if length eightytwo \<le> 1 then Inl IndexOutOfRange
          else if unat (eightytwo ! 1) < length eightytwo
          then (if unat (eightytwo ! 1) < 2 then Inl SliceBoundsOutOfRange
                else Inr (bytes_to_string (take (unat (eightytwo ! 1) - 2) (drop 2 eightytwo)),
                          None))
          else Inr ([], Some ''option82 option1 out of bounds (check eightytwo[1])''))"

section \<open>The packet handler\<close>

text \<open>
  The fields of a received packet that \<open>serveDHCP\<close> reads: \<open>GetCHAddr\<close>, the name of
  \<open>GetMessageType\<close>, \<open>GetGIAddr\<close> and the relay-agent-information option.
\<close>

record Packet =
  CHAddr :: HardwareAddr
  MessageType :: string
  GIAddr :: IP
  RelayAgentInformation :: "byte list option"

text \<open>
  What the handler consults outside this file: the ignore lists of \<open>conf\<close> (that of
  relay addresses is taken on the address, not on its printed form), the environment
  variable, the calls into the \<open>job\<close> package, each returning an error or a value, the
  draw of the random generator and the order in which the lease map is iterated. The
  type \<open>'j\<close> is \<open>job.Job\<close>. Metrics and logging do not change the control flow and are
  left out.
\<close>

record 'j Env =
  ShouldIgnoreOUI :: "string \<Rightarrow> bool"
  ShouldIgnoreGI :: "IP \<Rightarrow> bool"
  ENABLE_DEFAULT_WORKFLOWS :: string
  CreateFromDHCP :: "HardwareAddr \<Rightarrow> IP \<Rightarrow> string \<Rightarrow> error + 'j"
  CreateHWFromDHCP :: "HardwareAddr \<Rightarrow> IP \<Rightarrow> string \<Rightarrow> IP \<Rightarrow> IP \<Rightarrow> IP \<Rightarrow> error + 'j"
  GetTemplate :: "string \<Rightarrow> error + string"
  CreateWorkflow :: "string \<Rightarrow> HardwareAddr \<Rightarrow> error + string"
  draw :: nat
  mapOrder :: "int list"

text \<open>The calls a handler makes, in the order it makes them.\<close>

datatype 'j event =
    CallReleaseLease HardwareAddr
  | CallCreateFromDHCP HardwareAddr IP string
  | CallFreeLease
  | CallCreateHWFromDHCP HardwareAddr IP string IP IP IP
  | CallAddLease HardwareAddr IP
  | CallGetTemplate string
  | CallCreateWorkflow string HardwareAddr
  | SpawnServeDHCP 'j

text \<open>
  The branch of \<open>serveDHCP\<close> taken when \<open>ENABLE_DEFAULT_WORKFLOWS\<close> is \<open>1\<close>, with the
  calls made before it in \<open>pre\<close>.
\<close>

definition defaultWorkflow ::
  "'j Env \<Rightarrow> DHCPServer \<Rightarrow> HardwareAddr \<Rightarrow> IP \<Rightarrow> string \<Rightarrow> 'j event list \<Rightarrow>
     panic + (DHCPServer \<times> 'j event list)" where
  "defaultWorkflow env s mac gi circuitID pre =
     (case freeLease s (draw env) of
        Inl p \<Rightarrow> Inl p
      | Inr free \<Rightarrow>
          if free = - 1 then Inr (s, pre @ [CallFreeLease])
          else
            (case IPAdd (start s) free of
               Inl p \<Rightarrow> Inl p
             | Inr IPaddr \<Rightarrow>
                 (let t1 = pre @ [CallFreeLease,
                        CallCreateHWFromDHCP mac gi circuitID IPaddr (subnet s) (gateway s)]
                  in case CreateHWFromDHCP env mac gi circuitID IPaddr (subnet s) (gateway s) of
                       Inl e \<Rightarrow> Inr (s, t1)
                     | Inr j \<Rightarrow>
                         (case addLease s mac IPaddr of
                            Inl p \<Rightarrow> Inl p
                          | Inr s' \<Rightarrow>
                              (let t2 = t1 @ [CallAddLease mac IPaddr, CallGetTemplate ''default'']
                               in case GetTemplate env ''default'' of
                                    Inl e \<Rightarrow> Inr (s', t2)
                                  | Inr tid \<Rightarrow>
                                      (let t3 = t2 @ [CallCreateWorkflow tid mac]
                                       in case CreateWorkflow env tid mac of
                                            Inl e \<Rightarrow> Inr (s', t3)
                                          | Inr wid \<Rightarrow> Inr (s', t3 @ [SpawnServeDHCP j])))))))"

definition serveDHCP ::
  "'j Env \<Rightarrow> DHCPServer \<Rightarrow> Packet \<Rightarrow> panic + (DHCPServer \<times> 'j event list)" where
  "serveDHCP env s req =
     (let mac = CHAddr req
      in if ShouldIgnoreOUI env (HardwareAddr_String mac) then Inr (s, [])
         else if MessageType req = ''DHCPRELEASE''
         then Inr (releaseLease s mac (mapOrder env), [CallReleaseLease mac])
         else
           (let gi = GIAddr req
            in if ShouldIgnoreGI env gi then Inr (s, [])
               else
                 (case getCircuitID (RelayAgentInformation req) of
                    Inl p \<Rightarrow> Inl p
                  | Inr (circuitID, err) \<Rightarrow>
                      (case CreateFromDHCP env mac gi circuitID of
                         Inr j \<Rightarrow> Inr (s, [CallCreateFromDHCP mac gi circuitID, SpawnServeDHCP j])
                       | Inl e \<Rightarrow>
                           if ENABLE_DEFAULT_WORKFLOWS env \<noteq> ''1''
                           then Inr (s, [CallCreateFromDHCP mac gi circuitID])
                           else defaultWorkflow env s mac gi circuitID
                                  [CallCreateFromDHCP mac gi circuitID]))))"

section \<open>The startup supervisor\<close>

text \<open>\<open>errors.Wrap\<close> gives \<open>nil\<close> for a \<open>nil\<close> error and prefixes the message of any other.\<close>

definition Wrap :: "error option \<Rightarrow> string \<Rightarrow> error option" where
  "Wrap err msg = (case err of None \<Rightarrow> None | Some m \<Rightarrow> Some (msg @ '': '' @ m))"

text \<open>
  Modelled from the spec: \<open>retry.Do\<close> of the package \<open>github.com/avast/retry-go\<close>, which
  is not among the source files. Section 4.6 of the specification has the supervisor
  retry on failure under a bounded policy and fail for good once all attempts are
  exhausted. The attempt budget is the parameter \<open>attempts\<close>; \<open>f n\<close> is the outcome of
  the call number \<open>n\<close>, counted from \<open>0\<close>. The result is the number of calls made and
  the error, \<open>None\<close> once a call has succeeded. The delays between attempts are not
  modelled.
\<close>

fun retry_Do :: "nat \<Rightarrow> (nat \<Rightarrow> error option) \<Rightarrow> nat \<Rightarrow> nat \<times> error option" where
  "retry_Do 0 f n = (n, Some ''All attempts fail'')"
| "retry_Do (Suc budget) f n =
     (case f n of
        None \<Rightarrow> (Suc n, None)
      | Some e \<Rightarrow> retry_Do budget f (Suc n))"

text \<open>
  \<open>ServeDHCP\<close>: \<open>listen n\<close> is what the call number \<open>n\<close> of \<open>dhcp4.ListenAndServe\<close>
  returns. \<open>mainlog.Fatal\<close> ends the process.
\<close>

datatype exit = Returned | Fatal error

definition ServeDHCP :: "nat \<Rightarrow> (nat \<Rightarrow> error option) \<Rightarrow> nat \<times> exit" where
  "ServeDHCP attempts listen =
     (case retry_Do attempts (\<lambda>n. Wrap (listen n) ''serving dhcp'') 0 of
        (n, None) \<Rightarrow> (n, Returned)
      | (n, Some e) \<Rightarrow> (n, Fatal (''retry dhcp serve: '' @ e)))"

section \<open>Concrete states, packets and collaborators\<close>

definition macA :: HardwareAddr where
  "macA = [0x00, 0x1b, 0xfc, 0x00, 0x00, 0x01]"

definition macB :: HardwareAddr where
  "macB = [0x00, 0x1b, 0xfc, 0x00, 0x00, 0x02]"

definition macC :: HardwareAddr where
  "macC = [0x00, 0x1b, 0xfc, 0x00, 0x00, 0x03]"

text \<open>The pool of three addresses starting at \<open>10.0.0.1\<close>, empty.\<close>

definition pool3 :: DHCPServer where
  "pool3 = \<lparr>start = [10, 0, 0, 1], subnet = [255, 255, 255, 0], gateway = [10, 0, 0, 254],
     leaseRange = 3, leases = Map.empty\<rparr>"

text \<open>The same pool with offsets \<open>0\<close> and \<open>2\<close> assigned, then with offset \<open>1\<close> too.\<close>

definition pool3_used :: DHCPServer where
  "pool3_used = pool3\<lparr>leases := [0 \<mapsto> \<lparr>nic = HardwareAddr_String macA\<rparr>,
                                     2 \<mapsto> \<lparr>nic = HardwareAddr_String macB\<rparr>]\<rparr>"

definition pool3_full :: DHCPServer where
  "pool3_full = pool3_used\<lparr>leases := (leases pool3_used)(1 \<mapsto> \<lparr>nic = HardwareAddr_String macC\<rparr>)\<rparr>"

text \<open>
  Collaborators that know no client and create hardware, template and workflow without
  error; a discover and a release packet of the client \<open>macA\<close>.
\<close>

definition envD :: "nat Env" where
  "envD = \<lparr>ShouldIgnoreOUI = (\<lambda>_. False), ShouldIgnoreGI = (\<lambda>_. False),
     ENABLE_DEFAULT_WORKFLOWS = ''1'',
     CreateFromDHCP = (\<lambda>_ _ _. Inl ''not found''),
     CreateHWFromDHCP = (\<lambda>_ _ _ _ _ _. Inr 7),
     GetTemplate = (\<lambda>_. Inr ''tid-1''),
     CreateWorkflow = (\<lambda>_ _. Inr ''wid-1''),
     draw = 0, mapOrder = []\<rparr>"

definition pktDiscover :: Packet where
  "pktDiscover = \<lparr>CHAddr = macA, MessageType = ''DHCPDISCOVER'', GIAddr = [0, 0, 0, 0],
     RelayAgentInformation = None\<rparr>"

definition pktRelease :: Packet where
  "pktRelease = pktDiscover\<lparr>MessageType := ''DHCPRELEASE''\<rparr>"

text \<open>A listening socket that cannot be bound twice and then can, and one that never can.\<close>

definition listenThird :: "nat \<Rightarrow> error option" where
  "listenThird n = (if n < 2 then Some ''bind: address already in use'' else None)"

definition listenNever :: "nat \<Rightarrow> error option" where
  "listenNever n = Some ''bind: address already in use''"

section \<open>Evaluation of the concrete data\<close>

lemma macA_String: "HardwareAddr_String macA = ''00:1b:fc:00:00:01''"
  by (simp add: HardwareAddr_String_def macA_def hexDigit_def drop_bit_eq_div)

lemma macB_String: "HardwareAddr_String macB = ''00:1b:fc:00:00:02''"
  by (simp add: HardwareAddr_String_def macB_def hexDigit_def drop_bit_eq_div)

lemma macC_String: "HardwareAddr_String macC = ''00:1b:fc:00:00:03''"
  by (simp add: HardwareAddr_String_def macC_def hexDigit_def drop_bit_eq_div)

lemmas mac_Strings = macA_String macB_String macC_String

lemmas pool_defs = pool3_def pool3_used_def pool3_full_def

section \<open>Allocation of a free offset\<close>

lemma scan_Some:
  "scan m i hi = Some k \<Longrightarrow> i \<le> k \<and> k < hi \<and> m k = None"
proof (induction m i hi rule: scan.induct)
  case (1 m i hi)
  show ?case
  proof (cases "i < hi \<and> m i \<noteq> None")
    case True
    with "1.prems" have "scan m (i + 1) hi = Some k"
      by (subst (asm) scan.simps) simp
    with "1.IH" True show ?thesis by fastforce
  next
    case False
    with "1.prems" show ?thesis
      by (subst (asm) scan.simps) (auto split: if_splits)
  qed
qed

lemma scan_None:
  "scan m i hi = None \<Longrightarrow> i \<le> k \<Longrightarrow> k < hi \<Longrightarrow> m k \<noteq> None"
proof (induction m i hi rule: scan.induct)
  case (1 m i hi)
  from "1.prems" have lt: "i < hi" by simp
  from "1.prems"(1) lt have here: "m i \<noteq> None"
    by (subst (asm) scan.simps) (auto split: if_splits)
  from "1.prems"(1) lt here have rest: "scan m (i + 1) hi = None"
    by (subst (asm) scan.simps) simp
  show ?case
  proof (cases "k = i")
    case True
    with here show ?thesis by simp
  next
    case False
    with "1.prems" have "i + 1 \<le> k" by simp
    with "1.IH" lt here rest "1.prems"(3) show ?thesis by blast
  qed
qed

lemma freeLease_Inr:
  assumes "freeLease s raw = Inr k"
  shows "0 < leaseRange s \<and> (k = - 1 \<or> (0 \<le> k \<and> k < leaseRange s \<and> leases s k = None))"
proof -
  define b where "b = int raw mod leaseRange s"
  from assms have pos: "0 < leaseRange s"
    by (auto simp: freeLease_def Intn_def split: if_splits)
  then have b: "0 \<le> b" "b < leaseRange s" by (simp_all add: b_def)
  from pos have rnd: "Intn raw (leaseRange s) = Inr b" by (simp add: Intn_def b_def)
  from assms rnd consider "scan (leases s) b (leaseRange s) = Some k"
    | "scan (leases s) 0 b = Some k" | "k = - 1"
    by (auto simp: freeLease_def split: option.splits)
  then show ?thesis
  proof cases
    case 1
    from scan_Some [OF 1] b pos show ?thesis by simp
  next
    case 2
    from scan_Some [OF 2] b pos show ?thesis by simp
  next
    case 3
    with pos show ?thesis by simp
  qed
qed

text \<open>
  The allocator is complete: when some offset of the pool is free, \<open>freeLease\<close>
  returns a free offset of the pool, never \<open>-1\<close>, whatever the draw.
\<close>

lemma freeLease_available:
  assumes i: "0 \<le> i" "i < leaseRange s" "leases s i = None"
  shows "\<exists>k. freeLease s raw = Inr k \<and> 0 \<le> k \<and> k < leaseRange s \<and> leases s k = None"
proof -
  define b where "b = int raw mod leaseRange s"
  from i have pos: "0 < leaseRange s" by simp
  then have b: "0 \<le> b" "b < leaseRange s" by (simp_all add: b_def)
  from pos have rnd: "Intn raw (leaseRange s) = Inr b" by (simp add: Intn_def b_def)
  show ?thesis
  proof (cases "scan (leases s) b (leaseRange s)")
    case (Some k)
    with rnd have "freeLease s raw = Inr k" by (simp add: freeLease_def)
    with scan_Some [OF Some] b show ?thesis by simp
  next
    case None
    note upper = None
    have below: "i < b"
    proof (rule ccontr)
      assume "\<not> i < b"
      then have "b \<le> i" by simp
      from scan_None [OF upper this i(2)] i(3) show False by simp
    qed
    show ?thesis
    proof (cases "scan (leases s) 0 b")
      case (Some k)
      with rnd upper have "freeLease s raw = Inr k" by (simp add: freeLease_def)
      with scan_Some [OF Some] b show ?thesis by simp
    next
      case None
      from scan_None [OF None i(1) below] i(3) show ?thesis by simp
    qed
  qed
qed

text \<open>
  Claim C1. In a lease table with \<open>leaseRange > 0\<close>, \<open>freeLease\<close> returns, whatever the
  random draw, either \<open>-1\<close> or an offset \<open>k\<close> with \<open>0 \<le> k < leaseRange\<close> that is not
  a key of the lease map; when every offset of \<open>[0, leaseRange)\<close> is a key of the map,
  it returns \<open>-1\<close>.
\<close>

theorem freeLease_sound:
  assumes "0 < leaseRange s"
  shows "\<exists>k. freeLease s raw = Inr k \<and>
             (k = - 1 \<or> (0 \<le> k \<and> k < leaseRange s \<and> leases s k = None)) \<and>
             ((\<forall>i. 0 \<le> i \<and> i < leaseRange s \<longrightarrow> leases s i \<noteq> None) \<longrightarrow> k = - 1)"
proof -
  define b where "b = int raw mod leaseRange s"
  from assms have b: "0 \<le> b" "b < leaseRange s" by (simp_all add: b_def)
  from assms have rnd: "Intn raw (leaseRange s) = Inr b" by (simp add: Intn_def b_def)
  show ?thesis
  proof (cases "scan (leases s) b (leaseRange s)")
    case (Some k)
    with rnd have "freeLease s raw = Inr k" by (simp add: freeLease_def)
    moreover from scan_Some [OF Some] b have "0 \<le> k \<and> k < leaseRange s \<and> leases s k = None"
      by simp
    ultimately show ?thesis by auto
  next
    case None
    note upper = None
    show ?thesis
    proof (cases "scan (leases s) 0 b")
      case (Some k)
      with rnd upper have "freeLease s raw = Inr k" by (simp add: freeLease_def)
      moreover from scan_Some [OF Some] b have "0 \<le> k \<and> k < leaseRange s \<and> leases s k = None"
        by simp
      ultimately show ?thesis by auto
    next
      case None
      with rnd upper have "freeLease s raw = Inr (- 1)" by (simp add: freeLease_def)
      then show ?thesis by simp
    qed
  qed
qed

theorem freeLease_sound_witness:
  "freeLease pool3_used 2 = Inr 1 \<and> leases pool3_used 1 = None \<and>
   freeLease pool3_full 1 = Inr (- 1)"
proof -
  have h1: "0 < leaseRange pool3_used" by (simp add: pool_defs)
  have h2: "0 < leaseRange pool3_full" by (simp add: pool_defs)
  have full: "\<forall>i. 0 \<le> i \<and> i < leaseRange pool3_full \<longrightarrow> leases pool3_full i \<noteq> None"
  proof (intro allI impI)
    fix i :: int
    assume "0 \<le> i \<and> i < leaseRange pool3_full"
    then have "i = 0 \<or> i = 1 \<or> i = 2" by (auto simp: pool_defs)
    then show "leases pool3_full i \<noteq> None" by (auto simp: pool_defs)
  qed
  have e: "freeLease pool3_used 2 = Inr 1"
    by (simp add: freeLease_def pool_defs Intn_def scan.simps)
  from freeLease_sound [OF h1, of 2] e have "leases pool3_used 1 = None"
    by auto
  moreover from freeLease_sound [OF h2, of 1] full have "freeLease pool3_full 1 = Inr (- 1)"
    by auto
  ultimately show ?thesis using e by simp
qed

section \<open>Printed hardware addresses\<close>

text \<open>Two hardware addresses that print the same are the same.\<close>

lemma hexDigit_inj:
  assumes "i < 16" "j < 16" "hexDigit ! i = hexDigit ! j"
  shows "i = j"
proof -
  have "distinct hexDigit" by (simp add: hexDigit_def)
  moreover have "length hexDigit = 16" by (simp add: hexDigit_def)
  ultimately show ?thesis using assms by (simp add: nth_eq_iff_index_eq)
qed

lemma hi_nibble_lt: "unat (drop_bit 4 (b :: byte)) < 16"
proof -
  have "unat b < 256" using unsigned_less [of b, where ?'a = nat] by simp
  then show ?thesis by (simp add: drop_bit_eq_div unat_div)
qed

lemma lo_nibble_lt: "unat ((b :: byte) AND 0xF) < 16"
proof -
  have "b AND 0xF = take_bit 4 b"
    by (simp add: take_bit_eq_mask mask_eq_exp_minus_1)
  then have "unat (b AND 0xF) = take_bit 4 (unat b)"
    by (simp add: unsigned_take_bit_eq)
  also have "\<dots> < 2 ^ 4"
    by (rule take_bit_nat_less_exp)
  finally show ?thesis by simp
qed

lemma byte_of_nibbles:
  fixes a b :: byte
  assumes hi: "drop_bit 4 a = drop_bit 4 b" and lo: "a AND 0xF = b AND 0xF"
  shows "a = b"
proof (rule bit_word_eqI)
  fix n :: nat
  assume "n < LENGTH(8)"
  have m: "(0xF :: byte) = mask 4" by (simp add: mask_eq_exp_minus_1)
  show "bit a n = bit b n"
  proof (cases "n < 4")
    case True
    from lo have "bit (a AND mask 4) n = bit (b AND mask 4) n" by (simp add: m)
    with True show ?thesis by (simp add: bit_simps)
  next
    case False
    from hi have "bit (drop_bit 4 a) (n - 4) = bit (drop_bit 4 b) (n - 4)" by simp
    with False show ?thesis by (simp add: bit_simps)
  qed
qed

lemma String_loop_inj:
  "String_loop i xs = String_loop i ys \<Longrightarrow> xs = ys"
proof (induction xs arbitrary: ys i)
  case Nil
  then show ?case by (cases ys) (auto split: if_splits)
next
  case (Cons x xs)
  show ?case
  proof (cases ys)
    case Nil
    with Cons.prems show ?thesis by (auto split: if_splits)
  next
    case (Cons y ys')
    with Cons.prems
    have hi: "hexDigit ! unat (drop_bit 4 x) = hexDigit ! unat (drop_bit 4 y)"
      and lo: "hexDigit ! unat (x AND 0xF) = hexDigit ! unat (y AND 0xF)"
      and rest: "String_loop (Suc i) xs = String_loop (Suc i) ys'"
      by (auto split: if_splits)
    from hi have "unat (drop_bit 4 x) = unat (drop_bit 4 y)"
      by (rule hexDigit_inj [OF hi_nibble_lt hi_nibble_lt])
    then have 1: "drop_bit 4 x = drop_bit 4 y" by (simp add: word_unat_eq_iff)
    from lo have "unat (x AND 0xF) = unat (y AND 0xF)"
      by (rule hexDigit_inj [OF lo_nibble_lt lo_nibble_lt])
    then have 2: "x AND 0xF = y AND 0xF" by (simp add: word_unat_eq_iff)
    from 1 2 have "x = y" by (rule byte_of_nibbles)
    moreover from rest have "xs = ys'" by (rule Cons.IH)
    ultimately show ?thesis using Cons by simp
  qed
qed

lemma HardwareAddr_String_inj:
  "HardwareAddr_String a = HardwareAddr_String b \<Longrightarrow> a = b"
proof -
  assume eq: "HardwareAddr_String a = HardwareAddr_String b"
  have ne: "String_loop i xs = [] \<Longrightarrow> xs = []" for i xs
    by (cases xs) auto
  show ?thesis
  proof (cases "a = [] \<or> b = []")
    case True
    with eq ne [of 0 a] ne [of 0 b] show ?thesis
      by (auto simp: HardwareAddr_String_def split: if_splits)
  next
    case False
    with eq have "String_loop 0 a = String_loop 0 b"
      by (simp add: HardwareAddr_String_def)
    then show ?thesis by (rule String_loop_inj)
  qed
qed

section \<open>Bytes and words\<close>

lemma xFF_mask: "(0xFF :: 'a::len word) = mask 8"
  by (simp add: mask_eq_exp_minus_1)

lemma or_bytes64:
  fixes b0 b1 b2 b3 :: byte
  shows "(push_bit 24 (ucast b0) + push_bit 16 (ucast b1) + push_bit 8 (ucast b2) + ucast b3 :: 64 word)
       = ucast (ucast b3 OR push_bit 8 (ucast b2) OR push_bit 16 (ucast b1) OR push_bit 24 (ucast b0) :: 32 word)"
proof -
  define x0 x1 x2 x3 :: "64 word"
    where "x0 = push_bit 24 (ucast b0)" and "x1 = push_bit 16 (ucast b1)"
      and "x2 = push_bit 8 (ucast b2)" and "x3 = ucast b3"
  note x = x0_def x1_def x2_def x3_def
  have 1: "x0 + x1 = x0 OR x1"
    by (rule disjunctive_add) (auto simp: x bit_simps dest: bit_imp_le_length)
  have 2: "(x0 OR x1) + x2 = (x0 OR x1) OR x2"
    by (rule disjunctive_add) (auto simp: x bit_simps dest: bit_imp_le_length)
  have 3: "((x0 OR x1) OR x2) + x3 = ((x0 OR x1) OR x2) OR x3"
    by (rule disjunctive_add) (auto simp: x bit_simps dest: bit_imp_le_length)
  have "x0 + x1 + x2 + x3 = ((x0 OR x1) OR x2) OR x3"
    by (simp only: 1 2 3)
  also have "\<dots> = ucast (ucast b3 OR push_bit 8 (ucast b2) OR push_bit 16 (ucast b1) OR push_bit 24 (ucast b0) :: 32 word)"
    by (rule bit_word_eqI) (auto simp: x bit_simps dest: bit_imp_le_length)
  finally show ?thesis by (simp only: x)
qed

lemma ucast_down_add:
  fixes a :: "32 word"
  shows "(ucast ((ucast a :: 64 word) + word_of_int n) :: 32 word) = a + word_of_int n"
proof -
  have d: "(4294967296::int) dvd 18446744073709551616" by simp
  show ?thesis
    by transfer (simp add: take_bit_eq_mod mod_mod_cancel [OF d] mod_add_left_eq)
qed

lemma bytes_of_word:
  fixes v :: "64 word"
  shows "(ucast (ucast (v AND 0xFF) :: byte) OR push_bit 8 (ucast (ucast (drop_bit 8 v AND 0xFF) :: byte)) OR
          push_bit 16 (ucast (ucast (drop_bit 16 v AND 0xFF) :: byte)) OR
          push_bit 24 (ucast (ucast (drop_bit 24 v AND 0xFF) :: byte)) :: 32 word) = ucast v"
  unfolding xFF_mask
proof (rule bit_word_eqI)
  fix n :: nat
  assume "n < LENGTH(32)"
  then have n: "n < 32" by simp
  let ?l = "(ucast (ucast (v AND mask 8) :: byte) OR push_bit 8 (ucast (ucast (drop_bit 8 v AND mask 8) :: byte)) OR
          push_bit 16 (ucast (ucast (drop_bit 16 v AND mask 8) :: byte)) OR
          push_bit 24 (ucast (ucast (drop_bit 24 v AND mask 8) :: byte)) :: 32 word)"
  consider "n < 8" | "8 \<le> n" "n < 16" | "16 \<le> n" "n < 24" | "24 \<le> n"
    by linarith
  then show "bit ?l n = bit (ucast v :: 32 word) n"
  proof cases
    case 1
    then show ?thesis using n by (simp add: bit_simps)
  next
    case 2
    then show ?thesis using n by (auto simp: bit_simps)
  next
    case 3
    then show ?thesis using n by (auto simp: bit_simps)
  next
    case 4
    then show ?thesis using n by (auto simp: bit_simps)
  qed
qed

lemma To4_IPv4: "To4 (IPv4 a b c d) = [a, b, c, d]"
  by (simp add: To4_def IPv4_def v4InV6Prefix_def isZeros_def)

lemma Uint32_Inr: "Uint32 b = Inr w \<Longrightarrow> 4 \<le> length b"
  by (simp add: Uint32_def split: if_splits)

lemma IPAdd_value:
  assumes "Uint32 (To4 ip) = Inr w"
  shows "\<exists>ip'. IPAdd ip n = Inr ip' \<and> Uint32 (To4 ip') = Inr (w + word_of_int n)"
proof -
  let ?i = "To4 ip"
  from assms have len: "\<not> length ?i < 4" by (auto dest: Uint32_Inr)
  define u :: "64 word" where
    "u = push_bit 24 (ucast (?i ! 0)) + push_bit 16 (ucast (?i ! 1)) +
         push_bit 8 (ucast (?i ! 2)) + ucast (?i ! 3)"
  define v where "v = u + word_of_int n"
  define ip' where
    "ip' = IPv4 (ucast (drop_bit 24 v AND 0xFF)) (ucast (drop_bit 16 v AND 0xFF))
                (ucast (drop_bit 8 v AND 0xFF)) (ucast (v AND 0xFF))"
  from assms len have w: "w = ucast (?i ! 3) OR push_bit 8 (ucast (?i ! 2)) OR
      push_bit 16 (ucast (?i ! 1)) OR push_bit 24 (ucast (?i ! 0))"
    by (simp add: Uint32_def)
  have uw: "u = ucast w"
    unfolding u_def w by (rule or_bytes64)
  have add: "IPAdd ip n = Inr ip'"
    using len by (simp add: IPAdd_def Let_def ip'_def v_def u_def)
  have "Uint32 (To4 ip') = Inr (ucast v)"
    by (simp add: ip'_def To4_IPv4 Uint32_def bytes_of_word)
  also have "(ucast v :: 32 word) = w + word_of_int n"
    unfolding v_def uw by (rule ucast_down_add)
  finally show ?thesis using add by blast
qed

lemma uint_add_int:
  fixes w :: "32 word"
  assumes "0 \<le> n" "uint w + n < 2 ^ 32"
  shows "uint (w + word_of_int n) = uint w + n"
proof -
  have "0 \<le> uint w" by simp
  with assms have n: "n < 2 ^ 32" by linarith
  with assms have "uint (word_of_int n :: 32 word) = n"
    by (simp add: uint_word_of_int take_bit_eq_mod)
  with assms show ?thesis
    by (simp add: uint_word_ariths)
qed

lemma IPRange_IPAdd_offset:
  assumes "Uint32 (To4 a) = Inr w" and "0 \<le> n" and "uint w + n < 2 ^ 32"
  shows "\<exists>ip. IPAdd a n = Inr ip \<and> IPRange a ip = Inr (n + 1)"
proof -
  from IPAdd_value [OF assms(1), of n] obtain ip
    where ip: "IPAdd a n = Inr ip" "Uint32 (To4 ip) = Inr (w + word_of_int n)"
    by blast
  have "uint (w + word_of_int n) = uint w + n"
    using assms(2,3) by (rule uint_add_int)
  then have "IPRange a ip = Inr (n + 1)"
    by (simp add: IPRange_def ip(2) assms(1))
  with ip(1) show ?thesis by blast
qed

text \<open>The result of \<open>IPRange\<close> is a 64-bit integer: the model's \<open>int\<close> loses nothing.\<close>

lemma IPRange_int64:
  "IPRange a b = Inr r \<Longrightarrow> - (2 ^ 63) \<le> r \<and> r < 2 ^ 63"
proof -
  assume "IPRange a b = Inr r"
  then obtain hi lo :: "32 word" where r: "r = uint hi - uint lo + 1"
    by (auto simp: IPRange_def split: sum.splits)
  have b: "uint hi < 4294967296" "uint lo < 4294967296"
    using uint_lt2p [of hi] uint_lt2p [of lo] by simp_all
  have c: "0 \<le> uint hi" "0 \<le> uint lo" by simp_all
  have "- 9223372036854775808 \<le> r \<and> r < 9223372036854775808"
    using b c unfolding r by linarith
  then show ?thesis by simp
qed

section \<open>Address arithmetic: offset and count are inverse\<close>

text \<open>
  Claim C4. For every IPv4 base address \<open>a\<close>, of 32-bit big-endian value \<open>w\<close>, and every
  offset \<open>n \<ge> 0\<close> such that \<open>w + n\<close> fits in 32 bits, \<open>IPAdd a n\<close> is the address of
  value \<open>w + n\<close>, and \<open>IPRange a (IPAdd a n) - 1 = n\<close>.
\<close>

theorem IPRange_IPAdd:
  assumes "Uint32 (To4 a) = Inr w" and "0 \<le> n" and "uint w + n < 2 ^ 32"
  shows "\<exists>ip w' r. IPAdd a n = Inr ip \<and> Uint32 (To4 ip) = Inr w' \<and> uint w' = uint w + n \<and>
           IPRange a ip = Inr r \<and> r - 1 = n"
proof -
  from IPAdd_value [OF assms(1), of n] obtain ip
    where ip: "IPAdd a n = Inr ip" "Uint32 (To4 ip) = Inr (w + word_of_int n)"
    by blast
  have val: "uint (w + word_of_int n) = uint w + n"
    using assms(2,3) by (rule uint_add_int)
  have "IPRange a ip = Inr (uint (w + word_of_int n) - uint w + 1)"
    by (simp add: IPRange_def ip(2) assms(1))
  with val have "IPRange a ip = Inr (n + 1)" by simp
  with ip val show ?thesis by simp
qed

theorem IPRange_IPAdd_witness:
  "IPAdd [192, 168, 1, 250] 30 = Inr (IPv4 192 168 2 24) \<and>
   IPRange [192, 168, 1, 250] (IPv4 192 168 2 24) = Inr 31"
proof -
  have h: "Uint32 (To4 [192, 168, 1, 250]) = Inr 3232236026"
    by (simp add: To4_def Uint32_def)
  have fits: "uint (3232236026 :: 32 word) + 30 < 2 ^ 32" by simp
  have ip: "IPAdd [192, 168, 1, 250] 30 = Inr (IPv4 192 168 2 24)"
    by (simp add: IPAdd_def To4_def Let_def drop_bit_eq_div)
  from IPRange_IPAdd [OF h _ fits] ip
  have "IPRange [192, 168, 1, 250] (IPv4 192 168 2 24) = Inr 31"
    by auto
  with ip show ?thesis by simp
qed

section \<open>Binding an address\<close>

lemmas IPRange_defs = IPRange_def To4_def Uint32_def

text \<open>
  Claim C8. When the offset \<open>IPRange start a - 1\<close> of the address \<open>a\<close> is negative or at
  least \<open>leaseRange\<close>, \<open>addLease c a\<close> returns without a panic and leaves the server,
  its lease map included, as it was.
\<close>

theorem addLease_outside_pool:
  assumes "IPRange (start s) a = Inr r" and "r - 1 < 0 \<or> leaseRange s \<le> r - 1"
  shows "addLease s c a = Inr s"
  using assms by (auto simp: addLease_def Let_def)

theorem addLease_outside_pool_witness:
  "addLease pool3_used macA [10, 0, 0, 9] = Inr pool3_used \<and>
   addLease pool3_used macA [10, 0, 0, 0] = Inr pool3_used"
proof -
  have h1: "IPRange (start pool3_used) [10, 0, 0, 9] = Inr 9"
    by (simp add: pool_defs IPRange_defs)
  have h2: "(9::int) - 1 < 0 \<or> leaseRange pool3_used \<le> 9 - 1"
    by (simp add: pool_defs)
  have h3: "IPRange (start pool3_used) [10, 0, 0, 0] = Inr 0"
    by (simp add: pool_defs IPRange_defs)
  have h4: "(0::int) - 1 < 0 \<or> leaseRange pool3_used \<le> 0 - 1"
    by simp
  from addLease_outside_pool [OF h1 h2, of macA] addLease_outside_pool [OF h3 h4, of macA]
  show ?thesis by blast
qed

text \<open>
  Claim C3. Let the offset \<open>k = IPRange start a - 1\<close> of the address \<open>a\<close> be bound to
  the client \<open>c1\<close>. For a client \<open>c2 \<noteq> c1\<close>, \<open>addLease c2 a\<close> leaves the table as it
  was: the binding of \<open>k\<close> to \<open>c1\<close> is not overwritten. \<open>addLease c1 a\<close> does not panic
  and returns the table it was given, of the same size.
\<close>

theorem addLease_bound_offset:
  assumes off: "IPRange (start s) a = Inr r"
    and bound: "leases s (r - 1) = Some l" "nic l = HardwareAddr_String c1"
    and diff: "c1 \<noteq> c2"
  shows "addLease s c2 a = Inr s \<and>
         (\<exists>s'. addLease s c1 a = Inr s' \<and> s' = s \<and> card (dom (leases s')) = card (dom (leases s)))"
proof -
  from diff have ne: "HardwareAddr_String c1 \<noteq> HardwareAddr_String c2"
    by (auto dest: HardwareAddr_String_inj)
  with off bound have other: "addLease s c2 a = Inr s"
    by (simp add: addLease_def Let_def)
  from bound have l: "l = \<lparr>nic = HardwareAddr_String c1\<rparr>" by simp
  with bound(1) have "(leases s)(r - 1 \<mapsto> \<lparr>nic = HardwareAddr_String c1\<rparr>) = leases s"
    by (simp add: fun_upd_idem)
  with off bound have "addLease s c1 a = Inr s"
    by (simp add: addLease_def Let_def)
  with other show ?thesis by simp
qed

theorem addLease_bound_offset_witness:
  "leases pool3_used 2 = Some \<lparr>nic = HardwareAddr_String macB\<rparr> \<and>
   addLease pool3_used macA [10, 0, 0, 3] = Inr pool3_used \<and>
   addLease pool3_used macB [10, 0, 0, 3] = Inr pool3_used"
proof -
  have h1: "IPRange (start pool3_used) [10, 0, 0, 3] = Inr 3"
    by (simp add: pool_defs IPRange_defs)
  have h2: "leases pool3_used (3 - 1) = Some \<lparr>nic = HardwareAddr_String macB\<rparr>"
    by (simp add: pool_defs)
  have h3: "nic \<lparr>nic = HardwareAddr_String macB\<rparr> = HardwareAddr_String macB" by simp
  have h4: "macB \<noteq> macA" by (simp add: macA_def macB_def)
  from addLease_bound_offset [OF h1 h2 h3 h4] h2 show ?thesis by simp
qed

text \<open>
  Claim C10. In a lease table with \<open>leaseRange > 0\<close> whose start is an IPv4 address of
  value \<open>w\<close>, let \<open>freeLease\<close> return an offset \<open>k \<noteq> -1\<close> with \<open>w + k\<close> fitting in 32
  bits. Then the offset computed back from \<open>IPAdd start k\<close> is \<open>k\<close>, it is inside the
  bounds and free, and for every client \<open>c\<close> the call \<open>addLease c (IPAdd start k)\<close>
  inserts the binding of \<open>k\<close> to \<open>c\<close>.
\<close>

theorem freeLease_then_addLease:
  assumes pos: "0 < leaseRange s"
    and free: "freeLease s raw = Inr k" "k \<noteq> - 1"
    and v4: "Uint32 (To4 (start s)) = Inr w"
    and fits: "uint w + k < 2 ^ 32"
  shows "\<exists>ip. IPAdd (start s) k = Inr ip \<and> IPRange (start s) ip = Inr (k + 1) \<and>
              0 \<le> k \<and> k < leaseRange s \<and> leases s k = None \<and>
              addLease s c ip = Inr (s\<lparr>leases := (leases s)(k \<mapsto> \<lparr>nic = HardwareAddr_String c\<rparr>)\<rparr>)"
proof -
  from freeLease_Inr [OF free(1)] free(2)
  have k: "0 \<le> k" "k < leaseRange s" "leases s k = None" by auto
  from IPRange_IPAdd_offset [OF v4 k(1) fits] obtain ip
    where ip: "IPAdd (start s) k = Inr ip" "IPRange (start s) ip = Inr (k + 1)"
    by blast
  from ip(2) k have "addLease s c ip = Inr (s\<lparr>leases := (leases s)(k \<mapsto> \<lparr>nic = HardwareAddr_String c\<rparr>)\<rparr>)"
    by (simp add: addLease_def Let_def)
  with ip k show ?thesis by blast
qed

theorem freeLease_then_addLease_witness:
  "freeLease pool3_used 2 = Inr 1 \<and> IPAdd (start pool3_used) 1 = Inr (IPv4 10 0 0 2) \<and>
   addLease pool3_used macC (IPv4 10 0 0 2) = Inr pool3_full"
proof -
  have h1: "0 < leaseRange pool3_used" by (simp add: pool_defs)
  have h2: "freeLease pool3_used 2 = Inr 1"
    by (simp add: freeLease_def pool_defs Intn_def scan.simps)
  have h3: "(1::int) \<noteq> - 1" by simp
  have h4: "Uint32 (To4 (start pool3_used)) = Inr 167772161"
    by (simp add: pool_defs To4_def Uint32_def)
  have h5: "uint (167772161 :: 32 word) + 1 < 2 ^ 32" by simp
  have ip: "IPAdd (start pool3_used) 1 = Inr (IPv4 10 0 0 2)"
    by (simp add: pool_defs IPAdd_def To4_def Let_def drop_bit_eq_div)
  from freeLease_then_addLease [OF h1 h2 h3 h4 h5, of macC] ip
  have "addLease pool3_used macC (IPv4 10 0 0 2) =
          Inr (pool3_used\<lparr>leases := (leases pool3_used)(1 \<mapsto> \<lparr>nic = HardwareAddr_String macC\<rparr>)\<rparr>)"
    by auto
  with h2 ip show ?thesis by (simp add: pool3_full_def)
qed

section \<open>Releasing a client's lease\<close>

lemma release_loop_cases:
  "release_loop m c order = m \<or>
   (\<exists>k l. k \<in> set order \<and> m k = Some l \<and> nic l = c \<and> release_loop m c order = m(k := None))"
proof (induction order)
  case Nil
  then show ?case by simp
next
  case (Cons i order)
  show ?case
  proof (cases "m i")
    case None
    with Cons.IH show ?thesis by auto
  next
    case (Some v)
    show ?thesis
    proof (cases "nic v = c")
      case True
      with Some show ?thesis by auto
    next
      case False
      with Some Cons.IH show ?thesis by auto
    qed
  qed
qed

lemma release_loop_no_match:
  "(\<And>k l. m k = Some l \<Longrightarrow> nic l \<noteq> c) \<Longrightarrow> release_loop m c order = m"
  by (induction order) (auto split: option.splits)

lemma release_loop_removes:
  "k \<in> set order \<Longrightarrow> m k = Some l \<Longrightarrow> nic l = c \<Longrightarrow>
   \<exists>k' l'. m k' = Some l' \<and> nic l' = c \<and> release_loop m c order = m(k' := None)"
proof (induction order)
  case Nil
  then show ?case by simp
next
  case (Cons i order)
  show ?case
  proof (cases "m i")
    case None
    with Cons show ?thesis by auto
  next
    case (Some v)
    show ?thesis
    proof (cases "nic v = c")
      case True
      with Some show ?thesis by auto
    next
      case False
      with Some Cons show ?thesis by auto
    qed
  qed
qed

lemma release_loop_only:
  assumes "k \<in> set order" "m k = Some l" "nic l = c"
    and only: "\<And>k' l'. m k' = Some l' \<Longrightarrow> nic l' = c \<Longrightarrow> k' = k"
  shows "release_loop m c order = m(k := None)"
proof -
  from assms(1-3) have "\<exists>k' l'. m k' = Some l' \<and> nic l' = c \<and> release_loop m c order = m(k' := None)"
    by (rule release_loop_removes)
  then obtain k' l'
    where "m k' = Some l'" "nic l' = c" "release_loop m c order = m(k' := None)"
    by blast
  with only show ?thesis by auto
qed

text \<open>
  Claim C6. \<open>releaseLease c\<close>, in whatever order the map is iterated, either leaves the
  table as it was or removes one entry, of the client \<open>c\<close>, and nothing else; when no
  entry is of the client \<open>c\<close> the table is as it was. The function has no panic. After
  \<open>addLease c a\<close> has bound an offset inside the pool to \<open>c\<close> in a table that had no
  entry of \<open>c\<close>, \<open>releaseLease c\<close>, iterating over the keys of the table, removes that
  binding and no other: the table is the one before the binding.
\<close>

theorem releaseLease_spec:
  "(releaseLease s c order = s \<or>
      (\<exists>k l. leases s k = Some l \<and> nic l = HardwareAddr_String c \<and>
             releaseLease s c order = s\<lparr>leases := (leases s)(k := None)\<rparr>)) \<and>
   ((\<forall>k l. leases s k = Some l \<longrightarrow> nic l \<noteq> HardwareAddr_String c) \<longrightarrow>
      releaseLease s c order = s) \<and>
   ((\<forall>k l. leases s k = Some l \<longrightarrow> nic l \<noteq> HardwareAddr_String c) \<and>
    IPRange (start s) a = Inr r \<and> 0 \<le> r - 1 \<and> r - 1 < leaseRange s \<and>
    addLease s c a = Inr s' \<and> leases s' (r - 1) = Some \<lparr>nic = HardwareAddr_String c\<rparr> \<and>
    set order' = dom (leases s') \<longrightarrow>
      releaseLease s' c order' = s'\<lparr>leases := (leases s')(r - 1 := None)\<rparr> \<and>
      releaseLease s' c order' = s)"
proof (intro conjI impI)
  let ?c = "HardwareAddr_String c"
  from release_loop_cases [of "leases s" ?c order]
  show "releaseLease s c order = s \<or>
      (\<exists>k l. leases s k = Some l \<and> nic l = ?c \<and>
             releaseLease s c order = s\<lparr>leases := (leases s)(k := None)\<rparr>)"
  proof
    assume "release_loop (leases s) ?c order = leases s"
    then show ?thesis by (simp add: releaseLease_def)
  next
    assume "\<exists>k l. k \<in> set order \<and> leases s k = Some l \<and> nic l = ?c \<and>
              release_loop (leases s) ?c order = (leases s)(k := None)"
    then obtain k l where "leases s k = Some l" "nic l = ?c"
        "release_loop (leases s) ?c order = (leases s)(k := None)"
      by blast
    then have "leases s k = Some l \<and> nic l = ?c \<and>
        releaseLease s c order = s\<lparr>leases := (leases s)(k := None)\<rparr>"
      by (simp add: releaseLease_def)
    then show ?thesis by blast
  qed
next
  assume "\<forall>k l. leases s k = Some l \<longrightarrow> nic l \<noteq> HardwareAddr_String c"
  then have "release_loop (leases s) (HardwareAddr_String c) order = leases s"
    by (intro release_loop_no_match) blast
  then show "releaseLease s c order = s" by (simp add: releaseLease_def)
next
  let ?c = "HardwareAddr_String c"
  assume h: "(\<forall>k l. leases s k = Some l \<longrightarrow> nic l \<noteq> ?c) \<and>
    IPRange (start s) a = Inr r \<and> 0 \<le> r - 1 \<and> r - 1 < leaseRange s \<and>
    addLease s c a = Inr s' \<and> leases s' (r - 1) = Some \<lparr>nic = ?c\<rparr> \<and>
    set order' = dom (leases s')"
  then have cfree: "\<And>k l. leases s k = Some l \<Longrightarrow> nic l \<noteq> ?c" by blast
  have slot: "leases s (r - 1) = None"
  proof (cases "leases s (r - 1)")
    case None
    then show ?thesis .
  next
    case (Some l')
    with cfree have "nic l' \<noteq> ?c" by blast
    with Some h have "s' = s" by (auto simp: addLease_def Let_def)
    with h have "leases s (r - 1) = Some \<lparr>nic = ?c\<rparr>" by simp
    from cfree [OF this] show ?thesis by simp
  qed
  with h have s': "s' = s\<lparr>leases := (leases s)(r - 1 \<mapsto> \<lparr>nic = ?c\<rparr>)\<rparr>"
    by (auto simp: addLease_def Let_def)
  have only: "\<And>k' l'. leases s' k' = Some l' \<Longrightarrow> nic l' = ?c \<Longrightarrow> k' = r - 1"
    using cfree by (auto simp: s' split: if_splits)
  from h have mem: "r - 1 \<in> set order'" by auto
  have "release_loop (leases s') ?c order' = (leases s')(r - 1 := None)"
    by (rule release_loop_only [OF mem _ _ only]) (use h in auto)
  then have 1: "releaseLease s' c order' = s'\<lparr>leases := (leases s')(r - 1 := None)\<rparr>"
    by (simp add: releaseLease_def)
  have "(leases s')(r - 1 := None) = leases s"
    using slot by (auto simp: s')
  with 1 have 2: "releaseLease s' c order' = s" by (simp add: s')
  from 1 show "releaseLease s' c order' = s'\<lparr>leases := (leases s')(r - 1 := None)\<rparr>" .
  from 2 show "releaseLease s' c order' = s" .
qed

theorem releaseLease_spec_witness:
  "releaseLease pool3_used macC [2, 0] = pool3_used \<and>
   addLease pool3_used macC [10, 0, 0, 2] = Inr pool3_full \<and>
   releaseLease pool3_full macC [2, 1, 0] = pool3_used"
proof -
  have cfree: "\<forall>k l. leases pool3_used k = Some l \<longrightarrow> nic l \<noteq> HardwareAddr_String macC"
    by (auto simp: pool_defs mac_Strings split: if_splits)
  have off: "IPRange (start pool3_used) [10, 0, 0, 2] = Inr 2"
    by (simp add: pool_defs IPRange_defs)
  have inside: "(0::int) \<le> 2 - 1" "(2::int) - 1 < leaseRange pool3_used"
    by (simp_all add: pool_defs)
  have add: "addLease pool3_used macC [10, 0, 0, 2] = Inr pool3_full"
    by (simp add: addLease_def pool_defs IPRange_defs)
  have bound: "leases pool3_full (2 - 1) = Some \<lparr>nic = HardwareAddr_String macC\<rparr>"
    by (simp add: pool_defs)
  have keys: "set [2, 1, 0] = dom (leases pool3_full)"
    by (auto simp: pool_defs split: if_splits)
  note spec = releaseLease_spec [of pool3_used macC "[2, 0]" "[10, 0, 0, 2]" 2 pool3_full "[2, 1, 0]"]
  from spec cfree have "releaseLease pool3_used macC [2, 0] = pool3_used"
    by blast
  moreover from spec cfree off inside add bound keys
  have "releaseLease pool3_full macC [2, 1, 0] = pool3_used"
    by blast
  ultimately show ?thesis using add by simp
qed

section \<open>The option parser on short and malformed options\<close>

text \<open>
  A present option makes \<open>getCircuitID\<close> panic exactly when it has fewer than two bytes
  or its second byte is below \<open>2\<close>.
\<close>

lemma getCircuitID_panic_iff:
  "(\<exists>p. getCircuitID (Some b) = Inl p) \<longleftrightarrow> length b < 2 \<or> unat (b ! 1) < 2"
  by (auto simp: getCircuitID_def)

text \<open>
  Claim C2. An absent option gives the empty circuit id and no error, and a second byte
  that is not below the number of bytes gives the error. The bound check does not cover
  every read, though: on the one-byte option \<open>[1]\<close> the read of the second byte is out
  of range, and on \<open>[1, 0, 0x41]\<close>, whose second byte is \<open>0\<close>, the slice \<open>[2:0]\<close> is
  out of bounds. Both are panics, not the error.
\<close>

theorem getCircuitID_panics:
  "getCircuitID None = Inr ([], None) \<and>
   getCircuitID (Some [1, 3, 0x41]) =
     Inr ([], Some ''option82 option1 out of bounds (check eightytwo[1])'') \<and>
   getCircuitID (Some [1]) = Inl IndexOutOfRange \<and>
   getCircuitID (Some [1, 0, 0x41]) = Inl SliceBoundsOutOfRange"
  by (simp add: getCircuitID_def)

section \<open>The handler on an unknown client\<close>

lemma addLease_Inr:
  "IPRange (start s) a = Inr r \<Longrightarrow> \<exists>s'. addLease s c a = Inr s'"
  by (simp add: addLease_def Let_def split: option.splits)

text \<open>
  Claim C5, as stated for every packet, fails on a release packet: with the client
  unknown to the inventory, default workflows enabled and offset \<open>0\<close> free, the handler
  releases the client's lease and returns, with no call to create hardware.
\<close>

theorem serveDHCP_release_counterexample:
  "CreateFromDHCP envD (CHAddr pktRelease) (GIAddr pktRelease) [] = Inl ''not found'' \<and>
   ENABLE_DEFAULT_WORKFLOWS envD = ''1'' \<and>
   0 < leaseRange pool3 \<and> leases pool3 0 = None \<and>
   freeLease pool3 (draw envD) = Inr 0 \<and>
   serveDHCP envD pool3 pktRelease = Inr (pool3, [CallReleaseLease macA])"
  by (simp add: serveDHCP_def envD_def pktRelease_def pktDiscover_def releaseLease_def
      freeLease_def Intn_def scan.simps pool3_def)

text \<open>
  Claim C5, amended. Let a packet pass the filters of the handler (its client is not on
  the ignore list, it is not a release, its relay address is not on the ignore list),
  let \<open>getCircuitID\<close> return on its option 82, let the client be unknown to the
  inventory, default workflows be enabled, some offset \<open>i\<close> of the pool be free and
  the start of the pool be an IPv4 address. Then the allocation gives a free offset
  \<open>k\<close> of the pool, and the handler calls, after the lookup and the allocation,
  \<open>CreateHWFromDHCP\<close>, \<open>addLease\<close>, \<open>GetTemplate\<close> and \<open>CreateWorkflow\<close>, once each
  and in that order, and then spawns the reply; when \<open>CreateHWFromDHCP\<close>,
  \<open>GetTemplate\<close> or \<open>CreateWorkflow\<close> fails, that call is the last one.
\<close>

theorem serveDHCP_default_workflow:
  assumes filt: "\<not> ShouldIgnoreOUI env (HardwareAddr_String (CHAddr req))"
      "MessageType req \<noteq> ''DHCPRELEASE''" "\<not> ShouldIgnoreGI env (GIAddr req)"
    and opt: "getCircuitID (RelayAgentInformation req) = Inr (cid, perr)"
    and unknown: "CreateFromDHCP env (CHAddr req) (GIAddr req) cid = Inl e"
    and enabled: "ENABLE_DEFAULT_WORKFLOWS env = ''1''"
    and avail: "0 \<le> i" "i < leaseRange s" "leases s i = None"
    and v4: "Uint32 (To4 (start s)) = Inr w"
  shows "\<exists>k ip s'. freeLease s (draw env) = Inr k \<and>
       0 \<le> k \<and> k < leaseRange s \<and> leases s k = None \<and>
       IPAdd (start s) k = Inr ip \<and> addLease s (CHAddr req) ip = Inr s' \<and>
     (let mac = CHAddr req; gi = GIAddr req;
          D = CallCreateFromDHCP mac gi cid;
          H = CallCreateHWFromDHCP mac gi cid ip (subnet s) (gateway s);
          B = CallAddLease mac ip;
          T = CallGetTemplate ''default''
      in serveDHCP env s req =
           (case CreateHWFromDHCP env mac gi cid ip (subnet s) (gateway s) of
              Inl _ \<Rightarrow> Inr (s, [D, CallFreeLease, H])
            | Inr j \<Rightarrow>
                (case GetTemplate env ''default'' of
                   Inl _ \<Rightarrow> Inr (s', [D, CallFreeLease, H, B, T])
                 | Inr tid \<Rightarrow>
                     (case CreateWorkflow env tid mac of
                        Inl _ \<Rightarrow> Inr (s', [D, CallFreeLease, H, B, T, CallCreateWorkflow tid mac])
                      | Inr wid \<Rightarrow>
                          Inr (s', [D, CallFreeLease, H, B, T, CallCreateWorkflow tid mac,
                                    SpawnServeDHCP j])))))"
proof -
  from freeLease_available [OF avail, of "draw env"] obtain k
    where free: "freeLease s (draw env) = Inr k"
      and k: "0 \<le> k" "k < leaseRange s" "leases s k = None"
    by blast
  from k have nonneg: "k \<noteq> - 1" by simp
  from IPAdd_value [OF v4, of k] obtain ip
    where ip: "IPAdd (start s) k = Inr ip" "Uint32 (To4 ip) = Inr (w + word_of_int k)"
    by blast
  from ip(2) v4 have "IPRange (start s) ip = Inr (uint (w + word_of_int k) - uint w + 1)"
    by (simp add: IPRange_def)
  from addLease_Inr [OF this] obtain s' where s': "addLease s (CHAddr req) ip = Inr s'"
    by blast
  let ?mac = "CHAddr req" and ?gi = "GIAddr req"
  let ?D = "CallCreateFromDHCP ?mac ?gi cid"
  let ?H = "CallCreateHWFromDHCP ?mac ?gi cid ip (subnet s) (gateway s)"
  let ?B = "CallAddLease ?mac ip"
  let ?T = "CallGetTemplate ''default''"
  have "serveDHCP env s req = defaultWorkflow env s ?mac ?gi cid [?D]"
    using filt opt unknown enabled by (simp add: serveDHCP_def Let_def)
  also have "\<dots> =
      (case CreateHWFromDHCP env ?mac ?gi cid ip (subnet s) (gateway s) of
         Inl _ \<Rightarrow> Inr (s, [?D, CallFreeLease, ?H])
       | Inr j \<Rightarrow>
           (case GetTemplate env ''default'' of
              Inl _ \<Rightarrow> Inr (s', [?D, CallFreeLease, ?H, ?B, ?T])
            | Inr tid \<Rightarrow>
                (case CreateWorkflow env tid ?mac of
                   Inl _ \<Rightarrow> Inr (s', [?D, CallFreeLease, ?H, ?B, ?T, CallCreateWorkflow tid ?mac])
                 | Inr wid \<Rightarrow>
                     Inr (s', [?D, CallFreeLease, ?H, ?B, ?T, CallCreateWorkflow tid ?mac,
                               SpawnServeDHCP j]))))"
    using free nonneg ip(1) s' by (simp add: defaultWorkflow_def Let_def split: sum.splits)
  finally have trace: "serveDHCP env s req =
      (case CreateHWFromDHCP env ?mac ?gi cid ip (subnet s) (gateway s) of
         Inl _ \<Rightarrow> Inr (s, [?D, CallFreeLease, ?H])
       | Inr j \<Rightarrow>
           (case GetTemplate env ''default'' of
              Inl _ \<Rightarrow> Inr (s', [?D, CallFreeLease, ?H, ?B, ?T])
            | Inr tid \<Rightarrow>
                (case CreateWorkflow env tid ?mac of
                   Inl _ \<Rightarrow> Inr (s', [?D, CallFreeLease, ?H, ?B, ?T, CallCreateWorkflow tid ?mac])
                 | Inr wid \<Rightarrow>
                     Inr (s', [?D, CallFreeLease, ?H, ?B, ?T, CallCreateWorkflow tid ?mac,
                               SpawnServeDHCP j]))))" .
  from free k ip(1) s' trace show ?thesis
    by (intro exI [of _ k] exI [of _ ip] exI [of _ s']) (simp add: Let_def)
qed

theorem serveDHCP_default_workflow_witness:
  "serveDHCP envD pool3 pktDiscover =
     Inr (pool3\<lparr>leases := [0 \<mapsto> \<lparr>nic = HardwareAddr_String macA\<rparr>]\<rparr>,
          [CallCreateFromDHCP macA [0, 0, 0, 0] [], CallFreeLease,
           CallCreateHWFromDHCP macA [0, 0, 0, 0] [] (IPv4 10 0 0 1) [255, 255, 255, 0] [10, 0, 0, 254],
           CallAddLease macA (IPv4 10 0 0 1), CallGetTemplate ''default'',
           CallCreateWorkflow ''tid-1'' macA, SpawnServeDHCP 7]) \<and>
   serveDHCP (envD\<lparr>GetTemplate := (\<lambda>_. Inl ''no template'')\<rparr>) pool3 pktDiscover =
     Inr (pool3\<lparr>leases := [0 \<mapsto> \<lparr>nic = HardwareAddr_String macA\<rparr>]\<rparr>,
          [CallCreateFromDHCP macA [0, 0, 0, 0] [], CallFreeLease,
           CallCreateHWFromDHCP macA [0, 0, 0, 0] [] (IPv4 10 0 0 1) [255, 255, 255, 0] [10, 0, 0, 254],
           CallAddLease macA (IPv4 10 0 0 1), CallGetTemplate ''default''])"
proof -
  let ?envT = "envD\<lparr>GetTemplate := (\<lambda>_. Inl ''no template'')\<rparr>"
  have f1: "\<not> ShouldIgnoreOUI envD (HardwareAddr_String (CHAddr pktDiscover))"
    and f2: "MessageType pktDiscover \<noteq> ''DHCPRELEASE''"
    and f3: "\<not> ShouldIgnoreGI envD (GIAddr pktDiscover)"
    by (simp_all add: envD_def pktDiscover_def)
  have g1: "\<not> ShouldIgnoreOUI ?envT (HardwareAddr_String (CHAddr pktDiscover))"
    and g3: "\<not> ShouldIgnoreGI ?envT (GIAddr pktDiscover)"
    by (simp_all add: envD_def pktDiscover_def)
  have opt: "getCircuitID (RelayAgentInformation pktDiscover) = Inr ([], None)"
    by (simp add: getCircuitID_def pktDiscover_def)
  have unk: "CreateFromDHCP envD (CHAddr pktDiscover) (GIAddr pktDiscover) [] = Inl ''not found''"
    and unkT: "CreateFromDHCP ?envT (CHAddr pktDiscover) (GIAddr pktDiscover) [] = Inl ''not found''"
    by (simp_all add: envD_def)
  have en: "ENABLE_DEFAULT_WORKFLOWS envD = ''1''"
    and enT: "ENABLE_DEFAULT_WORKFLOWS ?envT = ''1''"
    by (simp_all add: envD_def)
  have free: "freeLease pool3 (draw envD) = Inr 0"
    and freeT: "freeLease pool3 (draw ?envT) = Inr 0"
    by (simp_all add: freeLease_def Intn_def scan.simps pool3_def envD_def)
  have a1: "(0::int) \<le> 0" and a2: "0 < leaseRange pool3" and a3: "leases pool3 0 = None"
    by (simp_all add: pool3_def)
  have v4: "Uint32 (To4 (start pool3)) = Inr 167772161"
    by (simp add: pool3_def To4_def Uint32_def)
  have ip: "IPAdd (start pool3) 0 = Inr (IPv4 10 0 0 1)"
    by (simp add: pool3_def IPAdd_def To4_def Let_def drop_bit_eq_div)
  have "IPRange [10, 0, 0, 1] (IPv4 10 0 0 1) = Inr 1"
    unfolding IPRange_def To4_IPv4 by (simp add: To4_def Uint32_def)
  then have bind: "addLease pool3 (CHAddr pktDiscover) (IPv4 10 0 0 1) =
      Inr (pool3\<lparr>leases := [0 \<mapsto> \<lparr>nic = HardwareAddr_String macA\<rparr>]\<rparr>)"
    by (simp add: addLease_def pool3_def pktDiscover_def)
  from serveDHCP_default_workflow [OF f1 f2 f3 opt unk en a1 a2 a3 v4] free ip bind
  have 1: "serveDHCP envD pool3 pktDiscover =
     Inr (pool3\<lparr>leases := [0 \<mapsto> \<lparr>nic = HardwareAddr_String macA\<rparr>]\<rparr>,
          [CallCreateFromDHCP macA [0, 0, 0, 0] [], CallFreeLease,
           CallCreateHWFromDHCP macA [0, 0, 0, 0] [] (IPv4 10 0 0 1) [255, 255, 255, 0] [10, 0, 0, 254],
           CallAddLease macA (IPv4 10 0 0 1), CallGetTemplate ''default'',
           CallCreateWorkflow ''tid-1'' macA, SpawnServeDHCP 7])"
    by (auto simp: Let_def envD_def pktDiscover_def pool3_def)
  from serveDHCP_default_workflow [OF g1 f2 g3 opt unkT enT a1 a2 a3 v4] freeT ip bind
  have 2: "serveDHCP ?envT pool3 pktDiscover =
     Inr (pool3\<lparr>leases := [0 \<mapsto> \<lparr>nic = HardwareAddr_String macA\<rparr>]\<rparr>,
          [CallCreateFromDHCP macA [0, 0, 0, 0] [], CallFreeLease,
           CallCreateHWFromDHCP macA [0, 0, 0, 0] [] (IPv4 10 0 0 1) [255, 255, 255, 0] [10, 0, 0, 254],
           CallAddLease macA (IPv4 10 0 0 1), CallGetTemplate ''default''])"
    by (auto simp: Let_def envD_def pktDiscover_def pool3_def)
  from 1 2 show ?thesis by (rule conjI)
qed

section \<open>Retrying the listening socket\<close>

lemma retry_Do_bound: "fst (retry_Do b f n) \<le> n + b"
proof (induction b arbitrary: n)
  case 0
  then show ?case by simp
next
  case (Suc b)
  show ?case
  proof (cases "f n")
    case None
    then show ?thesis by simp
  next
    case (Some e)
    with Suc.IH [of "Suc n"] show ?thesis by simp
  qed
qed

lemma retry_Do_all_fail:
  "(\<And>i. f i \<noteq> None) \<Longrightarrow> \<exists>e. retry_Do b f n = (n + b, Some e)"
proof (induction b arbitrary: n)
  case 0
  then show ?case by simp
next
  case (Suc b)
  have "f n \<noteq> None" by (rule Suc.prems)
  then obtain e where "f n = Some e" by blast
  moreover from Suc.IH [OF Suc.prems, of "Suc n"]
  obtain e' where "retry_Do b f (Suc n) = (Suc n + b, Some e')" by blast
  ultimately show ?case by simp
qed

lemma Wrap_None: "Wrap err msg = None \<longleftrightarrow> err = None"
  by (simp add: Wrap_def split: option.splits)

text \<open>
  Claim C9. With \<open>retry.Do\<close> as the specification describes it and a budget of at least
  three attempts, a listen-and-serve call that fails twice and then succeeds makes the
  supervisor return after its third call, without \<open>Fatal\<close>. A call that fails every
  time is made as many times as the budget allows and no more, and the supervisor then
  ends in \<open>Fatal\<close>. In every case the number of calls is at most the budget, and the
  supervisor either returns or ends in \<open>Fatal\<close>.
\<close>

theorem ServeDHCP_retry:
  "fst (ServeDHCP attempts listen) \<le> attempts \<and>
   (3 \<le> attempts \<and> listen 0 \<noteq> None \<and> listen 1 \<noteq> None \<and> listen 2 = None \<longrightarrow>
      ServeDHCP attempts listen = (3, Returned)) \<and>
   ((\<forall>n. listen n \<noteq> None) \<longrightarrow> (\<exists>e. ServeDHCP attempts listen = (attempts, Fatal e)))"
proof (intro conjI impI)
  let ?f = "\<lambda>n. Wrap (listen n) ''serving dhcp''"
  from retry_Do_bound [of attempts ?f 0]
  show "fst (ServeDHCP attempts listen) \<le> attempts"
    by (auto simp: ServeDHCP_def split: prod.splits option.splits)
next
  let ?f = "\<lambda>n. Wrap (listen n) ''serving dhcp''"
  assume h: "3 \<le> attempts \<and> listen 0 \<noteq> None \<and> listen 1 \<noteq> None \<and> listen 2 = None"
  then obtain m where m: "attempts = Suc (Suc (Suc m))"
    by (metis Suc_le_D numeral_3_eq_3 Suc_le_mono)
  from h obtain a b where ab: "?f 0 = Some a" "?f 1 = Some b" "?f 2 = None"
    by (auto simp: Wrap_def)
  then have "retry_Do attempts ?f 0 = (3, None)"
    by (simp add: m numeral_2_eq_2 numeral_3_eq_3)
  then show "ServeDHCP attempts listen = (3, Returned)"
    by (simp add: ServeDHCP_def)
next
  let ?f = "\<lambda>n. Wrap (listen n) ''serving dhcp''"
  assume "\<forall>n. listen n \<noteq> None"
  then have "\<And>i. ?f i \<noteq> None" by (simp add: Wrap_None)
  from retry_Do_all_fail [of ?f attempts 0, OF this]
  obtain e where "retry_Do attempts ?f 0 = (attempts, Some e)" by auto
  then show "\<exists>e. ServeDHCP attempts listen = (attempts, Fatal e)"
    by (simp add: ServeDHCP_def)
qed

theorem ServeDHCP_retry_witness:
  "ServeDHCP 10 listenThird = (3, Returned) \<and>
   ServeDHCP 10 listenNever =
     (10, Fatal ''retry dhcp serve: All attempts fail'')"
proof -
  have h1: "(3::nat) \<le> 10 \<and> listenThird 0 \<noteq> None \<and> listenThird 1 \<noteq> None \<and> listenThird 2 = None"
    by (simp add: listenThird_def)
  have h2: "\<forall>n. listenNever n \<noteq> None"
    by (simp add: listenNever_def)
  from ServeDHCP_retry [of 10 listenThird] h1
  have 1: "ServeDHCP 10 listenThird = (3, Returned)" by blast
  from ServeDHCP_retry [of 10 listenNever] h2
  obtain e where e: "ServeDHCP 10 listenNever = (10, Fatal e)" by blast
  have "\<And>b n. retry_Do b (\<lambda>n. Wrap (listenNever n) ''serving dhcp'') n = (n + b, Some ''All attempts fail'')"
  proof -
    fix b n
    show "retry_Do b (\<lambda>n. Wrap (listenNever n) ''serving dhcp'') n = (n + b, Some ''All attempts fail'')"
      by (induction b arbitrary: n) (simp_all add: Wrap_def listenNever_def)
  qed
  then have "ServeDHCP 10 listenNever = (10, Fatal ''retry dhcp serve: All attempts fail'')"
    by (simp add: ServeDHCP_def)
  with 1 e show ?thesis by simp
qed

end
